theory Spec2Isabelle
  imports Main "HOL-Library.Word"
begin

section \<open>Memory, object representations and the external generators\<close>

text \<open>
  The header \<^verbatim>\<open>include/coap2/coap_prng.h\<close> defines three byte-filling routines, one per
  platform: \<^verbatim>\<open>contiki_prng_impl\<close>, \<^verbatim>\<open>lwip_prng_impl\<close> and the Win32 \<^verbatim>\<open>coap_prng_impl\<close>,
  together with the macro \<^verbatim>\<open>prng_init\<close>.

  Memory is a store from addresses to bytes and \<^verbatim>\<open>buf\<close> is an address in it, so that a
  write outside the destination would be visible. A \<^verbatim>\<open>size_t\<close> is a natural number: it
  is unsigned, and every subtraction in the three routines is guarded by the loop
  condition, so none of them wraps.
\<close>

type_synonym memory = "nat \<Rightarrow> 8 word"

text \<open>
  The program state: the memory and the state of the platform's random generator, which
  the routines reach through \<^verbatim>\<open>random_rand\<close>, \<^verbatim>\<open>LWIP_RAND\<close> or \<^verbatim>\<open>rand_s\<close>. The functions
  below take a record scheme, so any further component of the program state travels
  along in the extension field.
\<close>

record 'g world =
  mem :: memory
  rng :: 'g

text \<open>Storing the bytes \<open>bs\<close> at the addresses \<open>dst, dst + 1, ...\<close>.\<close>

definition write_bytes :: "memory \<Rightarrow> nat \<Rightarrow> 8 word list \<Rightarrow> memory" where
  "write_bytes m dst bs =
     (\<lambda>a. if dst \<le> a \<and> a < dst + length bs then bs ! (a - dst) else m a)"

text \<open>
  \<^verbatim>\<open>memcpy(dst, &v, n)\<close> copies the first \<open>n\<close> bytes of the object representation \<open>src\<close> of
  \<open>v\<close>. Every call in the header has \<open>n \<le> sizeof(v)\<close> (lemmas \<open>contiki_loop_len\<close> and
  \<open>lwip_loop_len\<close> below).
\<close>

definition memcpy :: "memory \<Rightarrow> nat \<Rightarrow> 8 word list \<Rightarrow> nat \<Rightarrow> memory" where
  "memcpy m dst src n = write_bytes m dst (take n src)"

text \<open>
  The object representation of an integer of \<open>n\<close> bytes depends on the byte order of the
  platform, which the header does not fix; it is a parameter of the two routines that
  use \<^verbatim>\<open>memcpy\<close>.
\<close>

datatype endian = LittleEndian | BigEndian

definition le_bytes :: "nat \<Rightarrow> 'a::len word \<Rightarrow> 8 word list" where
  "le_bytes n v = map (\<lambda>i. ucast (drop_bit (8 * i) v)) [0..<n]"

definition obj_repr :: "endian \<Rightarrow> nat \<Rightarrow> 'a::len word \<Rightarrow> 8 word list" where
  "obj_repr e n v = (case e of LittleEndian \<Rightarrow> le_bytes n v | BigEndian \<Rightarrow> rev (le_bytes n v))"

text \<open>
  An external generator is a transition on its state that also returns a result. The
  first \<open>n\<close> results from a state, and the state after \<open>n\<close> calls:
\<close>

fun draws :: "('g \<Rightarrow> 'r \<times> 'g) \<Rightarrow> nat \<Rightarrow> 'g \<Rightarrow> 'r list" where
  "draws f 0 g = []"
| "draws f (Suc n) g = fst (f g) # draws f n (snd (f g))"

fun advance :: "('g \<Rightarrow> 'r \<times> 'g) \<Rightarrow> nat \<Rightarrow> 'g \<Rightarrow> 'g" where
  "advance f 0 g = g"
| "advance f (Suc n) g = advance f n (snd (f g))"

text \<open>
  The same generator with a counter of its invocations beside its state; the counter is
  how a theorem says that a routine calls the generator exactly so many times.
\<close>

definition counted :: "('g \<Rightarrow> 'r \<times> 'g) \<Rightarrow> 'g \<times> nat \<Rightarrow> 'r \<times> ('g \<times> nat)" where
  "counted f = (\<lambda>(g, c). (fst (f g), (snd (f g), Suc c)))"

section \<open>Contiki: \<^verbatim>\<open>contiki_prng_impl\<close> and \<^verbatim>\<open>prng_init\<close>\<close>

text \<open>
  \<^verbatim>\<open>
  uint16_t v = random_rand();
  while (len > sizeof(v)) {
    memcpy(buf, &v, sizeof(v));
    len -= sizeof(v);
    buf += sizeof(v);
    v = random_rand();
  }
  memcpy(buf, &v, len);
  return 1;
  \<close>
  The loop is a partial function into \<open>option\<close>: a run that never left the loop would be
  \<open>None\<close>. It returns the state at the loop's exit: the world, \<open>buf\<close>, \<open>len\<close> and \<open>v\<close>.
\<close>

partial_function (option) contiki_loop ::
  "('g \<Rightarrow> 16 word \<times> 'g) \<Rightarrow> endian \<Rightarrow> ('g, 'z) world_scheme \<Rightarrow> nat \<Rightarrow> nat \<Rightarrow> 16 word
     \<Rightarrow> (('g, 'z) world_scheme \<times> nat \<times> nat \<times> 16 word) option"
where
  "contiki_loop random_rand e w buf len v =
     (if len > 2 then
        let w1 = w\<lparr>mem := memcpy (mem w) buf (obj_repr e 2 v) 2\<rparr>;
            len' = len - 2;
            buf' = buf + 2;
            (v', g') = random_rand (rng w1)
        in contiki_loop random_rand e (w1\<lparr>rng := g'\<rparr>) buf' len' v'
      else Some (w, buf, len, v))"

declare contiki_loop.simps [code]

definition contiki_prng_impl ::
  "('g \<Rightarrow> 16 word \<times> 'g) \<Rightarrow> endian \<Rightarrow> ('g, 'z) world_scheme \<Rightarrow> nat \<Rightarrow> nat
     \<Rightarrow> (int \<times> ('g, 'z) world_scheme) option"
where
  "contiki_prng_impl random_rand e w buf len =
     (let (v, g) = random_rand (rng w) in
      case contiki_loop random_rand e (w\<lparr>rng := g\<rparr>) buf len v of
        None \<Rightarrow> None
      | Some (w', buf', len', v') \<Rightarrow>
          Some (1, w'\<lparr>mem := memcpy (mem w') buf' (obj_repr e 2 v') len'\<rparr>))"

text \<open>
  \<^verbatim>\<open>#define prng_init(Value) random_init((uint16_t)(Value))\<close>

  \<open>Value\<close> is the mathematical value of the macro's argument; the cast keeps its low 16
  bits. Contiki's \<^verbatim>\<open>random_init\<close> is not part of this header: it is a parameter, a
  function of the seed and of the generator's state before the call.
\<close>

definition contiki_prng_init ::
  "(16 word \<Rightarrow> 'g \<Rightarrow> 'g) \<Rightarrow> int \<Rightarrow> ('g, 'z) world_scheme \<Rightarrow> ('g, 'z) world_scheme"
where
  "contiki_prng_init random_init Value w = w\<lparr>rng := random_init (word_of_int Value) (rng w)\<rparr>"

section \<open>LwIP: \<^verbatim>\<open>lwip_prng_impl\<close> and \<^verbatim>\<open>prng_init\<close>\<close>

text \<open>
  \<^verbatim>\<open>
  u32_t v = LWIP_RAND();
  while (len > sizeof(v)) {
    memcpy(buf, &v, sizeof(v));
    len -= sizeof(v);
    buf += sizeof(v);
    v = LWIP_RAND();
  }
  memcpy(buf, &v, len);
  return 1;
  \<close>
\<close>

partial_function (option) lwip_loop ::
  "('g \<Rightarrow> 32 word \<times> 'g) \<Rightarrow> endian \<Rightarrow> ('g, 'z) world_scheme \<Rightarrow> nat \<Rightarrow> nat \<Rightarrow> 32 word
     \<Rightarrow> (('g, 'z) world_scheme \<times> nat \<times> nat \<times> 32 word) option"
where
  "lwip_loop LWIP_RAND e w buf len v =
     (if len > 4 then
        let w1 = w\<lparr>mem := memcpy (mem w) buf (obj_repr e 4 v) 4\<rparr>;
            len' = len - 4;
            buf' = buf + 4;
            (v', g') = LWIP_RAND (rng w1)
        in lwip_loop LWIP_RAND e (w1\<lparr>rng := g'\<rparr>) buf' len' v'
      else Some (w, buf, len, v))"

declare lwip_loop.simps [code]

definition lwip_prng_impl ::
  "('g \<Rightarrow> 32 word \<times> 'g) \<Rightarrow> endian \<Rightarrow> ('g, 'z) world_scheme \<Rightarrow> nat \<Rightarrow> nat
     \<Rightarrow> (int \<times> ('g, 'z) world_scheme) option"
where
  "lwip_prng_impl LWIP_RAND e w buf len =
     (let (v, g) = LWIP_RAND (rng w) in
      case lwip_loop LWIP_RAND e (w\<lparr>rng := g\<rparr>) buf len v of
        None \<Rightarrow> None
      | Some (w', buf', len', v') \<Rightarrow>
          Some (1, w'\<lparr>mem := memcpy (mem w') buf' (obj_repr e 4 v') len'\<rparr>))"

text \<open>\<^verbatim>\<open>#define prng_init(Value)\<close>: the macro expands to nothing.\<close>

definition lwip_prng_init :: "int \<Rightarrow> ('g, 'z) world_scheme \<Rightarrow> ('g, 'z) world_scheme" where
  "lwip_prng_init Value w = w"

section \<open>Win32: \<^verbatim>\<open>coap_prng_impl\<close> and \<^verbatim>\<open>prng_init\<close>\<close>

text \<open>\<^verbatim>\<open>#define prng_init(Value)\<close>: again the empty expansion.\<close>

definition win32_prng_init :: "int \<Rightarrow> ('g, 'z) world_scheme \<Rightarrow> ('g, 'z) world_scheme" where
  "win32_prng_init Value w = w"

text \<open>
  The inner loop
  \<^verbatim>\<open>for ( i = 0; i < len && i < 4; i++ ) { *buf++ = (uint8_t)r; r >>= 8; }\<close>
  started at a given \<open>i\<close>; it returns the memory, \<open>buf\<close>, \<open>r\<close> and \<open>i\<close> at its exit.
\<close>

function coap_prng_for ::
  "memory \<Rightarrow> nat \<Rightarrow> nat \<Rightarrow> 32 word \<Rightarrow> nat \<Rightarrow> memory \<times> nat \<times> 32 word \<times> nat"
where
  "coap_prng_for m buf len r i =
     (if i < len \<and> i < 4
      then coap_prng_for (m(buf := ucast r)) (buf + 1) len (drop_bit 8 r) (i + 1)
      else (m, buf, r, i))"
  by pat_completeness auto
termination
  by (relation "measure (\<lambda>(m, buf, len, r, i). 4 - i)") auto

declare coap_prng_for.simps [simp del]

text \<open>
  \<^verbatim>\<open>
  while ( len != 0 ) {
          uint32_t r = 0;
          size_t i;
          if ( rand_s( &r ) != 0 )
                  return 0;
          for ( i = 0; i < len && i < 4; i++ ) { ... }
          len -= i;
  }
  return 1;
  \<close>
  A call of \<^verbatim>\<open>rand_s\<close> returns its \<^verbatim>\<open>errno_t\<close> status and the value that \<open>r\<close> holds after
  the call (\<open>r\<close> is 0 before every call), and moves the state of the system's generator.
\<close>

partial_function (option) coap_prng_impl ::
  "('g \<Rightarrow> (int \<times> 32 word) \<times> 'g) \<Rightarrow> ('g, 'z) world_scheme \<Rightarrow> nat \<Rightarrow> nat
     \<Rightarrow> (int \<times> ('g, 'z) world_scheme) option"
where
  "coap_prng_impl rand_s w buf len =
     (if len \<noteq> 0 then
        let ((status, r), g') = rand_s (rng w);
            w1 = w\<lparr>rng := g'\<rparr>
        in if status \<noteq> 0 then Some (0, w1)
           else
             let (m', buf', r', i) = coap_prng_for (mem w1) buf len r 0
             in coap_prng_impl rand_s (w1\<lparr>mem := m'\<rparr>) buf' (len - i)
      else Some (1, w))"

declare coap_prng_impl.simps [code]

text \<open>
  The words that \<^verbatim>\<open>rand_s\<close> delivers before its first failure, among the
  \<open>(len + 3) div 4\<close> calls that a request for \<open>len\<close> bytes needs at most.
\<close>

definition coap_prng_words :: "('g \<Rightarrow> (int \<times> 32 word) \<times> 'g) \<Rightarrow> 'g \<Rightarrow> nat \<Rightarrow> 32 word list" where
  "coap_prng_words rand_s g len =
     map snd (takeWhile (\<lambda>d. fst d = 0) (draws rand_s ((len + 3) div 4) g))"

section \<open>Sample platform for the closed instances\<close>

text \<open>
  A memory filled with \<open>0xFF\<close>, generators whose state is the number of calls so far
  and whose \<open>g\<close>-th word has the bytes \<open>2g+1, 2g+2\<close> (16 bit) or \<open>4g+1, ..., 4g+4\<close>
  (32 bit) from the least significant one up, a \<^verbatim>\<open>rand_s\<close> that fails with \<^verbatim>\<open>EINVAL\<close> at
  its call number \<open>bad\<close> (counted from 0), and a \<^verbatim>\<open>random_init\<close> that restarts the
  generator at the seed.
\<close>

definition sample_mem :: memory where
  "sample_mem = (\<lambda>a. 255)"

definition sample_rand16 :: "nat \<Rightarrow> 16 word \<times> nat" where
  "sample_rand16 = (\<lambda>g. (514 * word_of_nat g + 513, Suc g))"

definition sample_rand32 :: "nat \<Rightarrow> 32 word \<times> nat" where
  "sample_rand32 = (\<lambda>g. (67372036 * word_of_nat g + 67305985, Suc g))"

definition sample_rand_s :: "nat \<Rightarrow> nat \<Rightarrow> (int \<times> 32 word) \<times> nat" where
  "sample_rand_s = (\<lambda>bad g.
     ((if g = bad then 22 else 0, 67372036 * word_of_nat g + 67305985), Suc g))"

definition sample_random_init :: "16 word \<Rightarrow> nat \<Rightarrow> nat" where
  "sample_random_init = (\<lambda>seed g. unat seed)"

section \<open>Memory and generator lemmas\<close>

lemma write_bytes_Nil [simp]: "write_bytes m a [] = m"
  by (rule ext) (auto simp: write_bytes_def)

lemma write_bytes_append:
  "write_bytes (write_bytes m a xs) (a + length xs) ys = write_bytes m a (xs @ ys)"
  by (rule ext) (auto simp: write_bytes_def nth_append)

lemma length_le_bytes [simp]: "length (le_bytes n v) = n"
  by (simp add: le_bytes_def)

lemma length_obj_repr [simp]: "length (obj_repr e n v) = n"
  by (cases e) (simp_all add: obj_repr_def)

lemma write_bytes_Cons:
  "write_bytes (m(a := x)) (Suc a) xs = write_bytes m a (x # xs)"
  by (rule ext) (auto simp: write_bytes_def nth_Cons')

lemma le_bytes_Suc: "le_bytes (Suc n) v = ucast v # le_bytes n (drop_bit 8 v)"
proof -
  have "[0..<Suc n] = 0 # map Suc [0..<n]"
    by (simp add: upt_conv_Cons map_Suc_upt del: upt_Suc)
  then show ?thesis
    by (simp add: le_bytes_def comp_def drop_bit_drop_bit add.commute del: upt_Suc)
qed

lemma take_le_bytes: "take k (le_bytes n v) = le_bytes (min k n) v"
proof (cases "k \<le> n")
  case True
  then have "take k [0..<n] = [0..<k]" by (simp add: take_upt)
  with True show ?thesis by (simp add: le_bytes_def take_map min_def)
next
  case False
  then show ?thesis by (simp add: le_bytes_def min_def)
qed

lemma length_draws [simp]: "length (draws f n g) = n"
  by (induction n arbitrary: g) simp_all

lemma draws_add: "draws f (m + n) g = draws f m g @ draws f n (advance f m g)"
  by (induction m arbitrary: g) simp_all

lemma draws_counted [simp]: "draws (counted f) n (g, c) = draws f n g"
  by (induction n arbitrary: g c) (simp_all add: counted_def)

lemma advance_counted [simp]: "advance (counted f) n (g, c) = (advance f n g, c + n)"
  by (induction n arbitrary: g c) (simp_all add: counted_def)

lemma length_concat_repr [simp]:
  "length (concat (map (obj_repr e k) xs)) = k * length xs"
  by (induction xs) simp_all

lemma length_concat_le_bytes [simp]:
  "length (concat (map (le_bytes k) xs)) = k * length xs"
  by (induction xs) simp_all

lemma write_bytes_outside:
  "a < dst \<or> dst + length bs \<le> a \<Longrightarrow> write_bytes m dst bs a = m a"
  by (auto simp: write_bytes_def)

lemma map_write_bytes: "map (write_bytes m dst bs) [dst..<dst + length bs] = bs"
  by (rule nth_equalityI) (simp_all add: write_bytes_def)

lemma write_bytes_twice: "write_bytes (write_bytes m a bs) a bs = write_bytes m a bs"
  by (rule ext) (simp add: write_bytes_def)

lemma fst_counted [simp]: "fst (counted f (g, c)) = fst (f g)"
  by (simp add: counted_def)

lemma snd_counted [simp]: "snd (counted f (g, c)) = (snd (f g), Suc c)"
  by (simp add: counted_def)

lemma length_concat_le_bytes_comp [simp]:
  "length (concat (map (le_bytes k \<circ> f) xs)) = k * length xs"
  by (induction xs) simp_all

section \<open>What the three routines compute\<close>

subsection \<open>Contiki\<close>

lemma contiki_loop_copy:
  "(case contiki_loop rr e w buf len v of
      None \<Rightarrow> None
    | Some (w', buf', len', v') \<Rightarrow>
        Some (1::int, w'\<lparr>mem := memcpy (mem w') buf' (obj_repr e 2 v') len'\<rparr>))
   = Some (1, w\<lparr>mem := write_bytes (mem w) buf
                 (take len (concat (map (obj_repr e 2) (v # draws rr ((len - 1) div 2) (rng w))))),
               rng := advance rr ((len - 1) div 2) (rng w)\<rparr>)"
proof (induction len arbitrary: w buf v rule: less_induct)
  case (less len)
  show ?case
  proof (cases "len > 2")
    case False
    then have n: "(len - 1) div 2 = 0" by simp
    show ?thesis
      using False by (subst contiki_loop.simps) (simp add: n memcpy_def)
  next
    case True
    define v' where "v' = fst (rr (rng w))"
    define g' where "g' = snd (rr (rng w))"
    define w2 where "w2 = w\<lparr>mem := memcpy (mem w) buf (obj_repr e 2 v) 2, rng := g'\<rparr>"
    have n: "(len - 1) div 2 = Suc ((len - 2 - 1) div 2)" using True by arith
    have step: "contiki_loop rr e w buf len v = contiki_loop rr e w2 (buf + 2) (len - 2) v'"
      using True
      by (subst contiki_loop.simps) (simp add: w2_def v'_def g'_def case_prod_beta Let_def)
    have IH: "(case contiki_loop rr e w2 (buf + 2) (len - 2) v' of
      None \<Rightarrow> None
    | Some (w', buf', len', v') \<Rightarrow>
        Some (1::int, w'\<lparr>mem := memcpy (mem w') buf' (obj_repr e 2 v') len'\<rparr>))
   = Some (1, w2\<lparr>mem := write_bytes (mem w2) (buf + 2)
                 (take (len - 2) (concat (map (obj_repr e 2) (v' # draws rr ((len - 2 - 1) div 2) (rng w2))))),
               rng := advance rr ((len - 2 - 1) div 2) (rng w2)\<rparr>)"
      using True by (intro less.IH) simp
    show ?thesis
      unfolding step IH n using True
      by (simp add: w2_def memcpy_def v'_def g'_def write_bytes_append [symmetric])
  qed
qed

lemma contiki_prng_impl_eq:
  "contiki_prng_impl rr e w buf len =
     Some (1, w\<lparr>mem := write_bytes (mem w) buf
                   (take len (concat (map (obj_repr e 2) (draws rr (Suc ((len - 1) div 2)) (rng w))))),
                 rng := advance rr (Suc ((len - 1) div 2)) (rng w)\<rparr>)"
  using contiki_loop_copy [where rr = rr and e = e and w = "w\<lparr>rng := snd (rr (rng w))\<rparr>"
      and buf = buf and len = len and v = "fst (rr (rng w))"]
  by (simp add: contiki_prng_impl_def case_prod_beta)

lemma contiki_loop_len:
  "contiki_loop rr e w buf len v = Some (w', buf', len', v') \<Longrightarrow> len' \<le> 2"
proof (induction len arbitrary: w buf v rule: less_induct)
  case (less len)
  show ?case
  proof (cases "len > 2")
    case False
    with less.prems show ?thesis
      by (subst (asm) contiki_loop.simps) simp
  next
    case True
    from less.prems True
    have "contiki_loop rr e
            (w\<lparr>mem := memcpy (mem w) buf (obj_repr e 2 v) 2, rng := snd (rr (rng w))\<rparr>)
            (buf + 2) (len - 2) (fst (rr (rng w))) = Some (w', buf', len', v')"
      by (subst (asm) contiki_loop.simps) (simp add: case_prod_beta Let_def)
    with True show ?thesis
      by (intro less.IH [of "len - 2"]) auto
  qed
qed

subsection \<open>LwIP\<close>

lemma lwip_loop_copy:
  "(case lwip_loop rr e w buf len v of
      None \<Rightarrow> None
    | Some (w', buf', len', v') \<Rightarrow>
        Some (1::int, w'\<lparr>mem := memcpy (mem w') buf' (obj_repr e 4 v') len'\<rparr>))
   = Some (1, w\<lparr>mem := write_bytes (mem w) buf
                 (take len (concat (map (obj_repr e 4) (v # draws rr ((len - 1) div 4) (rng w))))),
               rng := advance rr ((len - 1) div 4) (rng w)\<rparr>)"
proof (induction len arbitrary: w buf v rule: less_induct)
  case (less len)
  show ?case
  proof (cases "len > 4")
    case False
    then have n: "(len - 1) div 4 = 0" by simp
    show ?thesis
      using False by (subst lwip_loop.simps) (simp add: n memcpy_def)
  next
    case True
    define v' where "v' = fst (rr (rng w))"
    define g' where "g' = snd (rr (rng w))"
    define w2 where "w2 = w\<lparr>mem := memcpy (mem w) buf (obj_repr e 4 v) 4, rng := g'\<rparr>"
    have n: "(len - 1) div 4 = Suc ((len - 4 - 1) div 4)" using True by arith
    have step: "lwip_loop rr e w buf len v = lwip_loop rr e w2 (buf + 4) (len - 4) v'"
      using True
      by (subst lwip_loop.simps) (simp add: w2_def v'_def g'_def case_prod_beta Let_def)
    have IH: "(case lwip_loop rr e w2 (buf + 4) (len - 4) v' of
      None \<Rightarrow> None
    | Some (w', buf', len', v') \<Rightarrow>
        Some (1::int, w'\<lparr>mem := memcpy (mem w') buf' (obj_repr e 4 v') len'\<rparr>))
   = Some (1, w2\<lparr>mem := write_bytes (mem w2) (buf + 4)
                 (take (len - 4) (concat (map (obj_repr e 4) (v' # draws rr ((len - 4 - 1) div 4) (rng w2))))),
               rng := advance rr ((len - 4 - 1) div 4) (rng w2)\<rparr>)"
      using True by (intro less.IH) simp
    show ?thesis
      unfolding step IH n using True
      by (simp add: w2_def memcpy_def v'_def g'_def write_bytes_append [symmetric])
  qed
qed

lemma lwip_prng_impl_eq:
  "lwip_prng_impl rr e w buf len =
     Some (1, w\<lparr>mem := write_bytes (mem w) buf
                   (take len (concat (map (obj_repr e 4) (draws rr (Suc ((len - 1) div 4)) (rng w))))),
                 rng := advance rr (Suc ((len - 1) div 4)) (rng w)\<rparr>)"
  using lwip_loop_copy [where rr = rr and e = e and w = "w\<lparr>rng := snd (rr (rng w))\<rparr>"
      and buf = buf and len = len and v = "fst (rr (rng w))"]
  by (simp add: lwip_prng_impl_def case_prod_beta)

lemma lwip_loop_len:
  "lwip_loop rr e w buf len v = Some (w', buf', len', v') \<Longrightarrow> len' \<le> 4"
proof (induction len arbitrary: w buf v rule: less_induct)
  case (less len)
  show ?case
  proof (cases "len > 4")
    case False
    with less.prems show ?thesis
      by (subst (asm) lwip_loop.simps) simp
  next
    case True
    from less.prems True
    have "lwip_loop rr e
            (w\<lparr>mem := memcpy (mem w) buf (obj_repr e 4 v) 4, rng := snd (rr (rng w))\<rparr>)
            (buf + 4) (len - 4) (fst (rr (rng w))) = Some (w', buf', len', v')"
      by (subst (asm) lwip_loop.simps) (simp add: case_prod_beta Let_def)
    with True show ?thesis
      by (intro less.IH [of "len - 4"]) auto
  qed
qed

subsection \<open>Win32\<close>

lemma coap_prng_for_eq:
  "coap_prng_for m buf len r i =
     (write_bytes m buf (le_bytes (min len 4 - i) r), buf + (min len 4 - i),
      drop_bit (8 * (min len 4 - i)) r, max i (min len 4))"
proof (induction m buf len r i rule: coap_prng_for.induct)
  case (1 m buf len r i)
  show ?case
  proof (cases "i < len \<and> i < 4")
    case True
    define j where "j = min len 4 - Suc i"
    from True have j: "min len 4 - i = Suc j" "min len 4 - Suc i = j"
      by (auto simp: j_def min_def)
    from True have mx: "max (Suc i) (min len 4) = max i (min len 4)"
      by (auto simp: max_def min_def)
    show ?thesis
      apply (subst coap_prng_for.simps)
      apply (simp only: True if_True "1.IH" [OF True])
      apply (simp add: j mx le_bytes_Suc write_bytes_Cons drop_bit_drop_bit ac_simps)
      done
  next
    case False
    then have "min len 4 - i = 0" by auto
    with False show ?thesis
      by (subst coap_prng_for.simps) (auto simp: le_bytes_def)
  qed
qed

lemma coap_prng_for_0:
  "coap_prng_for m buf len r 0 =
     (write_bytes m buf (take len (le_bytes 4 r)), buf + min len 4,
      drop_bit (8 * min len 4) r, min len 4)"
  by (simp add: coap_prng_for_eq take_le_bytes)

lemma coap_prng_words_0 [simp]: "coap_prng_words rs g 0 = []"
  by (simp add: coap_prng_words_def)

lemma coap_prng_words_step:
  "len \<noteq> 0 \<Longrightarrow> coap_prng_words rs g len =
     (if fst (fst (rs g)) = 0 then snd (fst (rs g)) # coap_prng_words rs (snd (rs g)) (len - min len 4)
      else [])"
proof -
  assume "len \<noteq> 0"
  then have "(len + 3) div 4 = Suc ((len - min len 4 + 3) div 4)" by (auto simp: min_def)
  then show ?thesis by (simp add: coap_prng_words_def)
qed

lemma coap_prng_impl_eq:
  "coap_prng_impl rs w buf len =
     Some (if length (coap_prng_words rs (rng w) len) = (len + 3) div 4
           then (1, w\<lparr>mem := write_bytes (mem w) buf
                               (take len (concat (map (le_bytes 4) (coap_prng_words rs (rng w) len)))),
                       rng := advance rs ((len + 3) div 4) (rng w)\<rparr>)
           else (0, w\<lparr>mem := write_bytes (mem w) buf
                               (concat (map (le_bytes 4) (coap_prng_words rs (rng w) len))),
                       rng := advance rs (Suc (length (coap_prng_words rs (rng w) len))) (rng w)\<rparr>))"
proof (induction len arbitrary: w buf rule: less_induct)
  case (less len)
  show ?case
  proof (cases "len = 0")
    case True
    then show ?thesis by (subst coap_prng_impl.simps) simp
  next
    case False
    define status where "status = fst (fst (rs (rng w)))"
    define r where "r = snd (fst (rs (rng w)))"
    define g' where "g' = snd (rs (rng w))"
    have n: "(len + 3) div 4 = Suc ((len - min len 4 + 3) div 4)"
      using False by (auto simp: min_def)
    show ?thesis
    proof (cases "status = 0")
      case bad: False
      have "coap_prng_impl rs w buf len = Some (0, w\<lparr>rng := g'\<rparr>)"
        using False bad
        by (subst coap_prng_impl.simps)
           (simp add: status_def g'_def case_prod_beta Let_def)
      moreover have "coap_prng_words rs (rng w) len = []"
        using False bad by (simp add: coap_prng_words_step status_def)
      ultimately show ?thesis
        using False by (simp add: n g'_def)
    next
      case ok: True
      define w2 where "w2 = w\<lparr>rng := g', mem := write_bytes (mem w) buf (take len (le_bytes 4 r))\<rparr>"
      have step: "coap_prng_impl rs w buf len =
                  coap_prng_impl rs w2 (buf + min len 4) (len - min len 4)"
        using False ok
        by (subst coap_prng_impl.simps)
           (simp add: status_def g'_def r_def w2_def case_prod_beta Let_def coap_prng_for_0)
      have words: "coap_prng_words rs (rng w) len = r # coap_prng_words rs g' (len - min len 4)"
        using False ok by (simp add: coap_prng_words_step status_def r_def g'_def)
      have IH: "coap_prng_impl rs w2 (buf + min len 4) (len - min len 4) =
     Some (if length (coap_prng_words rs (rng w2) (len - min len 4)) = (len - min len 4 + 3) div 4
           then (1, w2\<lparr>mem := write_bytes (mem w2) (buf + min len 4)
                               (take (len - min len 4) (concat (map (le_bytes 4) (coap_prng_words rs (rng w2) (len - min len 4))))),
                       rng := advance rs ((len - min len 4 + 3) div 4) (rng w2)\<rparr>)
           else (0, w2\<lparr>mem := write_bytes (mem w2) (buf + min len 4)
                               (concat (map (le_bytes 4) (coap_prng_words rs (rng w2) (len - min len 4)))),
                       rng := advance rs (Suc (length (coap_prng_words rs (rng w2) (len - min len 4)))) (rng w2)\<rparr>))"
        using False by (intro less.IH) (simp add: min_def)
      show ?thesis
      proof (cases "len \<le> 4")
        case True
        then show ?thesis
          unfolding step IH words n
          by (simp add: w2_def g'_def)
      next
        case big: False
        then have m4: "min len 4 = 4" by simp
        show ?thesis
          unfolding step IH words n
          using big by (simp add: w2_def g'_def m4 write_bytes_append [symmetric])
      qed
    qed
  qed
qed

lemma coap_prng_words_failing:
  assumes ok: "\<forall>d \<in> set (draws rs k g). fst d = 0"
    and bad: "fst (fst (rs (advance rs k g))) \<noteq> 0"
    and k: "4 * k < len"
  shows "coap_prng_words rs g len = map snd (draws rs k g)"
proof -
  define j where "j = (len + 3) div 4 - Suc k"
  from k have n: "(len + 3) div 4 = k + Suc j"
    unfolding j_def by arith
  have split: "draws rs (k + Suc j) g
          = draws rs k g @ fst (rs (advance rs k g)) # draws rs j (snd (rs (advance rs k g)))"
    by (simp only: draws_add draws.simps)
  have "takeWhile (\<lambda>d. fst d = 0) (draws rs (k + Suc j) g) = draws rs k g"
    unfolding split using ok bad by (simp add: takeWhile_tail)
  then show ?thesis
    unfolding coap_prng_words_def n by (simp only:)
qed

lemma coap_prng_words_all_ok:
  assumes ok: "\<forall>d \<in> set (draws rs ((len + 3) div 4) g). fst d = 0"
  shows "coap_prng_words rs g len = map snd (draws rs ((len + 3) div 4) g)"
proof -
  from ok have "takeWhile (\<lambda>d. fst d = 0) (draws rs ((len + 3) div 4) g)
                  = draws rs ((len + 3) div 4) g"
    by (simp add: takeWhile_eq_all_conv)
  then show ?thesis
    unfolding coap_prng_words_def by (simp only:)
qed

lemma length_coap_prng_words: "length (coap_prng_words rs g len) \<le> (len + 3) div 4"
  using length_takeWhile_le [of "\<lambda>d. fst d = 0" "draws rs ((len + 3) div 4) g"]
  by (simp add: coap_prng_words_def)

lemma coap_prng_words_counted [simp]:
  "coap_prng_words (counted rs) (g, c) len = coap_prng_words rs g len"
  by (simp add: coap_prng_words_def)

section \<open>Evaluating the routines on the sample platform\<close>

lemma draws_numeral:
  "draws f (numeral k) g = fst (f g) # draws f (pred_numeral k) (snd (f g))"
  by (simp add: numeral_eq_Suc)

lemma advance_numeral:
  "advance f (numeral k) g = advance f (pred_numeral k) (snd (f g))"
  by (simp add: numeral_eq_Suc)

lemma le_bytes_0: "le_bytes 0 v = []"
  by (simp add: le_bytes_def)

lemma le_bytes_numeral:
  "le_bytes (numeral k) v = ucast v # le_bytes (pred_numeral k) (drop_bit 8 v)"
  by (simp add: numeral_eq_Suc le_bytes_Suc)

lemmas sample_eval =
  draws_numeral advance_numeral le_bytes_numeral le_bytes_Suc le_bytes_0 obj_repr_def
  write_bytes_def coap_prng_words_def counted_def
  sample_mem_def sample_rand16_def sample_rand32_def sample_rand_s_def sample_random_init_def

section \<open>The claims\<close>

text \<open>
  In the statements below \<open>Suc ((len - 1) div 2)\<close> is the number of 16-bit words that a
  Contiki fill of \<open>len\<close> bytes draws (\<open>Suc ((len - 1) div 4)\<close> words of 32 bits for LwIP);
  the subtraction on \<open>nat\<close> stops at 0, so the number is 1 for \<open>len = 0\<close>.
\<close>

lemma two_words_cover: "len \<le> 2 * Suc ((len - 1) div 2)"
  by arith

lemma four_words_cover: "len \<le> 4 * Suc ((len - 1) div 4)"
  by arith

text \<open>
  C1. Each of the three routines returns, and it returns 1 with exactly \<open>len\<close> bytes stored
  at \<open>buf, ..., buf + len - 1\<close> (Contiki and LwIP always; Win32 unless it returns 0). The
  bytes are the first \<open>len\<close> bytes of the words that the generator delivers. Whatever
  the result, no byte below \<open>buf\<close> or at \<open>buf + len\<close> and above is changed.
\<close>

theorem fill_writes_len_bytes_or_fails:
  "(case contiki_prng_impl random_rand e wc buf len of
      None \<Rightarrow> False
    | Some (ret, w') \<Rightarrow>
        ret = 1 \<and>
        mem w' = write_bytes (mem wc) buf
                   (take len (concat (map (obj_repr e 2)
                      (draws random_rand (Suc ((len - 1) div 2)) (rng wc))))) \<and>
        length (take len (concat (map (obj_repr e 2)
                      (draws random_rand (Suc ((len - 1) div 2)) (rng wc))))) = len \<and>
        (\<forall>a. a < buf \<or> buf + len \<le> a \<longrightarrow> mem w' a = mem wc a))
   \<and>
   (case lwip_prng_impl LWIP_RAND e wl buf len of
      None \<Rightarrow> False
    | Some (ret, w') \<Rightarrow>
        ret = 1 \<and>
        mem w' = write_bytes (mem wl) buf
                   (take len (concat (map (obj_repr e 4)
                      (draws LWIP_RAND (Suc ((len - 1) div 4)) (rng wl))))) \<and>
        length (take len (concat (map (obj_repr e 4)
                      (draws LWIP_RAND (Suc ((len - 1) div 4)) (rng wl))))) = len \<and>
        (\<forall>a. a < buf \<or> buf + len \<le> a \<longrightarrow> mem w' a = mem wl a))
   \<and>
   (case coap_prng_impl rand_s ww buf len of
      None \<Rightarrow> False
    | Some (ret, w') \<Rightarrow>
        (ret = 1 \<and>
         mem w' = write_bytes (mem ww) buf
                    (take len (concat (map (le_bytes 4) (coap_prng_words rand_s (rng ww) len)))) \<and>
         length (take len (concat (map (le_bytes 4) (coap_prng_words rand_s (rng ww) len)))) = len
         \<or> ret = 0) \<and>
        (\<forall>a. a < buf \<or> buf + len \<le> a \<longrightarrow> mem w' a = mem ww a))"
proof (intro conjI)
  show "case contiki_prng_impl random_rand e wc buf len of
      None \<Rightarrow> False
    | Some (ret, w') \<Rightarrow>
        ret = 1 \<and>
        mem w' = write_bytes (mem wc) buf
                   (take len (concat (map (obj_repr e 2)
                      (draws random_rand (Suc ((len - 1) div 2)) (rng wc))))) \<and>
        length (take len (concat (map (obj_repr e 2)
                      (draws random_rand (Suc ((len - 1) div 2)) (rng wc))))) = len \<and>
        (\<forall>a. a < buf \<or> buf + len \<le> a \<longrightarrow> mem w' a = mem wc a)"
    using two_words_cover [of len]
    by (simp add: contiki_prng_impl_eq write_bytes_outside min.absorb1)
next
  show "case lwip_prng_impl LWIP_RAND e wl buf len of
      None \<Rightarrow> False
    | Some (ret, w') \<Rightarrow>
        ret = 1 \<and>
        mem w' = write_bytes (mem wl) buf
                   (take len (concat (map (obj_repr e 4)
                      (draws LWIP_RAND (Suc ((len - 1) div 4)) (rng wl))))) \<and>
        length (take len (concat (map (obj_repr e 4)
                      (draws LWIP_RAND (Suc ((len - 1) div 4)) (rng wl))))) = len \<and>
        (\<forall>a. a < buf \<or> buf + len \<le> a \<longrightarrow> mem w' a = mem wl a)"
    using four_words_cover [of len]
    by (simp add: lwip_prng_impl_eq write_bytes_outside min.absorb1)
next
  let ?ws = "coap_prng_words rand_s (rng ww) len"
  have short: "4 * length ?ws < len" if "length ?ws \<noteq> (len + 3) div 4"
    using that length_coap_prng_words [of rand_s "rng ww" len] by arith
  have full: "len \<le> 4 * length ?ws" if "length ?ws = (len + 3) div 4"
    using that by arith
  show "case coap_prng_impl rand_s ww buf len of
      None \<Rightarrow> False
    | Some (ret, w') \<Rightarrow>
        (ret = 1 \<and>
         mem w' = write_bytes (mem ww) buf
                    (take len (concat (map (le_bytes 4) ?ws))) \<and>
         length (take len (concat (map (le_bytes 4) ?ws))) = len
         \<or> ret = 0) \<and>
        (\<forall>a. a < buf \<or> buf + len \<le> a \<longrightarrow> mem w' a = mem ww a)"
  proof (cases "length ?ws = (len + 3) div 4")
    case True
    with full show ?thesis
      by (simp add: coap_prng_impl_eq write_bytes_outside min.absorb1)
  next
    case False
    with short show ?thesis
      by (simp add: coap_prng_impl_eq write_bytes_outside)
  qed
qed

theorem fill_writes_len_bytes_or_fails_witness:
  "(10::nat) + 5 \<le> 15 \<and>
   (case contiki_prng_impl sample_rand16 LittleEndian \<lparr>mem = sample_mem, rng = 0\<rparr> 10 5 of
      None \<Rightarrow> False
    | Some (ret, w') \<Rightarrow> ret = 1 \<and> map (mem w') [9..<16] = [255, 1, 2, 3, 4, 5, 255]) \<and>
   (case lwip_prng_impl sample_rand32 LittleEndian \<lparr>mem = sample_mem, rng = 0\<rparr> 10 5 of
      None \<Rightarrow> False
    | Some (ret, w') \<Rightarrow> ret = 1 \<and> map (mem w') [9..<16] = [255, 1, 2, 3, 4, 5, 255]) \<and>
   (case coap_prng_impl (sample_rand_s 1) \<lparr>mem = sample_mem, rng = 0\<rparr> 10 5 of
      None \<Rightarrow> False
    | Some (ret, w') \<Rightarrow> (ret = 1 \<or> ret = 0) \<and> mem w' 15 = 255)"
  using fill_writes_len_bytes_or_fails
          [where random_rand = sample_rand16 and e = LittleEndian and buf = 10 and len = 5
             and wc = "\<lparr>mem = sample_mem, rng = 0\<rparr>"
             and LWIP_RAND = sample_rand32 and wl = "\<lparr>mem = sample_mem, rng = 0\<rparr>"
             and rand_s = "sample_rand_s 1" and ww = "\<lparr>mem = sample_mem, rng = 0\<rparr>"]
  by (auto simp: sample_eval split: option.splits)

text \<open>
  C2. With \<open>len = 0\<close> each routine returns 1 and leaves the whole memory as it was.
\<close>

theorem fill_zero_length:
  "map_option (\<lambda>(ret, w'). (ret, mem w')) (contiki_prng_impl random_rand e wc buf 0) = Some (1, mem wc)
   \<and> map_option (\<lambda>(ret, w'). (ret, mem w')) (lwip_prng_impl LWIP_RAND e wl buf 0) = Some (1, mem wl)
   \<and> coap_prng_impl rand_s ww buf 0 = Some (1, ww)"
  by (simp add: contiki_prng_impl_eq lwip_prng_impl_eq coap_prng_impl_eq)

text \<open>
  C3 does not hold as stated. On the sample platform a Contiki or LwIP fill of length 0
  writes no byte, yet it has called the generator once: the state goes from 0 to 1.
\<close>

theorem zero_length_fill_draws_a_word:
  "contiki_prng_impl sample_rand16 LittleEndian \<lparr>mem = sample_mem, rng = 0\<rparr> 10 0
     = Some (1, \<lparr>mem = sample_mem, rng = 1\<rparr>)
   \<and> lwip_prng_impl sample_rand32 LittleEndian \<lparr>mem = sample_mem, rng = 0\<rparr> 10 0
     = Some (1, \<lparr>mem = sample_mem, rng = 1\<rparr>)
   \<and> \<lparr>mem = sample_mem, rng = 1::nat\<rparr> \<noteq> \<lparr>mem = sample_mem, rng = 0\<rparr>"
  by (simp add: contiki_prng_impl_eq lwip_prng_impl_eq sample_rand16_def sample_rand32_def)

text \<open>
  C3, as amended. A fill changes nothing but the bytes \<open>buf, ..., buf + len - 1\<close> and
  the state of the generator. The Contiki and LwIP routines call the generator exactly
  \<open>1 + (len - 1) div sizeof(v)\<close> times (the subtraction stops at 0), so exactly once when
  \<open>len = 0\<close>, where they write no byte. The Win32 routine with \<open>len = 0\<close> leaves the whole
  state as it was.
\<close>

theorem fill_changes_buffer_and_generator_only:
  "contiki_prng_impl (counted random_rand) e (wc\<lparr>rng := (gc, c)\<rparr>) buf len =
     Some (1, wc\<lparr>mem := write_bytes (mem wc) buf
                    (take len (concat (map (obj_repr e 2)
                       (draws random_rand (Suc ((len - 1) div 2)) gc)))),
                 rng := (advance random_rand (Suc ((len - 1) div 2)) gc,
                         c + Suc ((len - 1) div 2))\<rparr>)
   \<and>
   lwip_prng_impl (counted LWIP_RAND) e (wl\<lparr>rng := (gl, c)\<rparr>) buf len =
     Some (1, wl\<lparr>mem := write_bytes (mem wl) buf
                    (take len (concat (map (obj_repr e 4)
                       (draws LWIP_RAND (Suc ((len - 1) div 4)) gl)))),
                 rng := (advance LWIP_RAND (Suc ((len - 1) div 4)) gl,
                         c + Suc ((len - 1) div 4))\<rparr>)
   \<and>
   (\<exists>ret bs k. coap_prng_impl rand_s ww buf len =
       Some (ret, ww\<lparr>mem := write_bytes (mem ww) buf bs, rng := advance rand_s k (rng ww)\<rparr>)
       \<and> length bs \<le> len)
   \<and>
   coap_prng_impl rand_s ww buf 0 = Some (1, ww)"
proof (intro conjI)
  let ?ws = "coap_prng_words rand_s (rng ww) len"
  show "\<exists>ret bs k. coap_prng_impl rand_s ww buf len =
       Some (ret, ww\<lparr>mem := write_bytes (mem ww) buf bs, rng := advance rand_s k (rng ww)\<rparr>)
       \<and> length bs \<le> len"
  proof (cases "length ?ws = (len + 3) div 4")
    case True
    then show ?thesis
      by (intro exI [of _ 1] exI [of _ "take len (concat (map (le_bytes 4) ?ws))"]
            exI [of _ "(len + 3) div 4"])
         (simp add: coap_prng_impl_eq)
  next
    case False
    then have "4 * length ?ws < len"
      using length_coap_prng_words [of rand_s "rng ww" len] by arith
    with False show ?thesis
      by (intro exI [of _ 0] exI [of _ "concat (map (le_bytes 4) ?ws)"]
            exI [of _ "Suc (length ?ws)"])
         (simp add: coap_prng_impl_eq)
  qed
qed (simp_all add: contiki_prng_impl_eq lwip_prng_impl_eq coap_prng_impl_eq)

text \<open>
  C4. Win32: when \<^verbatim>\<open>rand_s\<close> fails at its call number \<open>k + 1\<close>, after \<open>k\<close> successful
  calls that did not yet complete the request, the routine returns 0 there: it has made
  exactly \<open>k + 1\<close> calls and stored nothing but the bytes of the \<open>k\<close> delivered words.
  When no call fails it returns 1 after exactly \<open>(len + 3) div 4\<close> calls, one for each
  chunk of at most 4 bytes.
\<close>

theorem rand_s_failure_is_returned_at_once:
  "((\<forall>d \<in> set (draws rand_s k g). fst d = 0) \<and>
    fst (fst (rand_s (advance rand_s k g))) \<noteq> 0 \<and> 4 * k < len
    \<longrightarrow> coap_prng_impl (counted rand_s) (w\<lparr>rng := (g, c)\<rparr>) buf len =
          Some (0, w\<lparr>mem := write_bytes (mem w) buf
                         (concat (map (le_bytes 4) (map snd (draws rand_s k g)))),
                      rng := (advance rand_s (Suc k) g, c + Suc k)\<rparr>))
   \<and>
   ((\<forall>d \<in> set (draws rand_s ((len + 3) div 4) g). fst d = 0)
    \<longrightarrow> coap_prng_impl (counted rand_s) (w\<lparr>rng := (g, c)\<rparr>) buf len =
          Some (1, w\<lparr>mem := write_bytes (mem w) buf
                         (take len (concat (map (le_bytes 4)
                            (map snd (draws rand_s ((len + 3) div 4) g))))),
                      rng := (advance rand_s ((len + 3) div 4) g, c + (len + 3) div 4)\<rparr>))"
proof (intro conjI impI)
  assume h: "(\<forall>d \<in> set (draws rand_s k g). fst d = 0) \<and>
    fst (fst (rand_s (advance rand_s k g))) \<noteq> 0 \<and> 4 * k < len"
  then have ws: "coap_prng_words rand_s g len = map snd (draws rand_s k g)"
    by (intro coap_prng_words_failing) simp_all
  from h have "k \<noteq> (len + 3) div 4" by arith
  then show "coap_prng_impl (counted rand_s) (w\<lparr>rng := (g, c)\<rparr>) buf len =
          Some (0, w\<lparr>mem := write_bytes (mem w) buf
                         (concat (map (le_bytes 4) (map snd (draws rand_s k g)))),
                      rng := (advance rand_s (Suc k) g, c + Suc k)\<rparr>)"
    by (simp add: coap_prng_impl_eq ws)
next
  assume "\<forall>d \<in> set (draws rand_s ((len + 3) div 4) g). fst d = 0"
  then have ws: "coap_prng_words rand_s g len = map snd (draws rand_s ((len + 3) div 4) g)"
    by (rule coap_prng_words_all_ok)
  show "coap_prng_impl (counted rand_s) (w\<lparr>rng := (g, c)\<rparr>) buf len =
          Some (1, w\<lparr>mem := write_bytes (mem w) buf
                         (take len (concat (map (le_bytes 4)
                            (map snd (draws rand_s ((len + 3) div 4) g))))),
                      rng := (advance rand_s ((len + 3) div 4) g, c + (len + 3) div 4)\<rparr>)"
    by (simp add: coap_prng_impl_eq ws)
qed

theorem rand_s_failure_is_returned_at_once_witness:
  "(map fst (draws (sample_rand_s 2) 2 0) = [0, 0] \<and>
    fst (fst (sample_rand_s 2 (advance (sample_rand_s 2) 2 0))) \<noteq> 0 \<and> 4 * 2 < (10::nat)) \<and>
   (case coap_prng_impl (counted (sample_rand_s 2)) \<lparr>mem = sample_mem, rng = (0, 0)\<rparr> 10 10 of
      None \<Rightarrow> False
    | Some (ret, w') \<Rightarrow>
        ret = 0 \<and> rng w' = (3, 3) \<and>
        map (mem w') [9..<21] = [255, 1, 2, 3, 4, 5, 6, 7, 8, 255, 255, 255]) \<and>
   map fst (draws (sample_rand_s 7) ((10 + 3) div 4) 0) = [0, 0, 0] \<and>
   (case coap_prng_impl (counted (sample_rand_s 7)) \<lparr>mem = sample_mem, rng = (0, 0)\<rparr> 10 10 of
      None \<Rightarrow> False
    | Some (ret, w') \<Rightarrow>
        ret = 1 \<and> rng w' = (3, 3) \<and>
        map (mem w') [9..<21] = [255, 1, 2, 3, 4, 5, 6, 7, 8, 9, 10, 255])"
  using rand_s_failure_is_returned_at_once
          [where rand_s = "sample_rand_s 2" and k = 2 and g = 0 and len = 10 and buf = 10
             and c = 0 and w = "\<lparr>mem = sample_mem, rng = (0, 0)\<rparr>"]
        rand_s_failure_is_returned_at_once
          [where rand_s = "sample_rand_s 7" and k = 0 and g = 0 and len = 10 and buf = 10
             and c = 0 and w = "\<lparr>mem = sample_mem, rng = (0, 0)\<rparr>"]
  by (simp add: sample_eval)

text \<open>
  C5. Win32: when \<^verbatim>\<open>rand_s\<close> fails after \<open>k\<close> successful calls with \<open>4 * k < len\<close>, the routine
  returns 0, the first \<open>4 * k\<close> bytes of the buffer hold the \<open>k\<close> delivered words, least
  significant byte first, and every other byte of the memory is unchanged.
\<close>

theorem rand_s_failure_keeps_written_prefix:
  assumes ok: "\<forall>d \<in> set (draws rand_s k (rng w)). fst d = 0"
    and bad: "fst (fst (rand_s (advance rand_s k (rng w)))) \<noteq> 0"
    and k: "4 * k < len"
  shows "case coap_prng_impl rand_s w buf len of
           None \<Rightarrow> False
         | Some (ret, w') \<Rightarrow>
             ret = 0 \<and>
             map (mem w') [buf..<buf + 4 * k]
               = concat (map (le_bytes 4) (map snd (draws rand_s k (rng w)))) \<and>
             (\<forall>a. a < buf \<or> buf + 4 * k \<le> a \<longrightarrow> mem w' a = mem w a)"
proof -
  let ?bs = "concat (map (le_bytes 4) (map snd (draws rand_s k (rng w))))"
  have ws: "coap_prng_words rand_s (rng w) len = map snd (draws rand_s k (rng w))"
    using ok bad k by (rule coap_prng_words_failing)
  from k have ne: "k \<noteq> (len + 3) div 4" by arith
  have len_bs: "length ?bs = 4 * k" by simp
  have "map (write_bytes (mem w) buf ?bs) [buf..<buf + 4 * k] = ?bs"
    using map_write_bytes [of "mem w" buf ?bs] by (simp only: len_bs)
  then show ?thesis
    using ne by (simp add: coap_prng_impl_eq ws write_bytes_outside)
qed

theorem rand_s_failure_keeps_written_prefix_witness:
  "map fst (draws (sample_rand_s 2) 2 0) = [0, 0] \<and>
   fst (fst (sample_rand_s 2 (advance (sample_rand_s 2) 2 0))) \<noteq> 0 \<and> 4 * 2 < (10::nat) \<and>
   (case coap_prng_impl (sample_rand_s 2) \<lparr>mem = sample_mem, rng = 0\<rparr> 10 10 of
      None \<Rightarrow> False
    | Some (ret, w') \<Rightarrow>
        ret = 0 \<and> map (mem w') [9..<21] = [255, 1, 2, 3, 4, 5, 6, 7, 8, 255, 255, 255])"
proof -
  have h: "\<forall>d \<in> set (draws (sample_rand_s 2) 2 (rng \<lparr>mem = sample_mem, rng = 0\<rparr>)). fst d = 0"
    by (simp add: sample_eval)
  have b: "fst (fst (sample_rand_s 2 (advance (sample_rand_s 2) 2 (rng \<lparr>mem = sample_mem, rng = 0\<rparr>)))) \<noteq> 0"
    by (simp add: sample_eval)
  have k: "4 * 2 < (10::nat)" by simp
  show ?thesis
    using rand_s_failure_keeps_written_prefix [OF h b k, of 10]
    by (auto simp: sample_eval split: option.splits)
qed

text \<open>
  C6. Contiki with \<open>len = 5\<close>: the routine calls \<^verbatim>\<open>random_rand\<close> exactly three times and
  stores exactly 5 bytes: the two bytes of the first word, the two bytes of the second
  and the first byte of the third.
\<close>

theorem contiki_five_bytes_three_draws:
  "(let (v0, g1) = random_rand g; (v1, g2) = random_rand g1; (v2, g3) = random_rand g2;
        bs = obj_repr e 2 v0 @ obj_repr e 2 v1 @ take 1 (obj_repr e 2 v2)
    in contiki_prng_impl (counted random_rand) e (w\<lparr>rng := (g, c)\<rparr>) buf 5 =
         Some (1, w\<lparr>mem := write_bytes (mem w) buf bs, rng := (g3, c + 3)\<rparr>)
       \<and> length bs = 5)"
  by (simp add: contiki_prng_impl_eq draws_numeral advance_numeral case_prod_beta Let_def)

text \<open>
  C7. Contiki, with a \<^verbatim>\<open>random_init\<close> that puts the generator into a state fixed by the
  seed: seeding with \<open>s\<close> and filling \<open>N\<close> bytes, then seeding with \<open>s\<close> and filling \<open>N\<close> bytes
  again, gives the same bytes both times, and these bytes depend on \<open>s\<close> and \<open>N\<close> only,
  not on the state or the memory before.
\<close>

theorem seed_then_fill_is_reproducible:
  fixes s :: int and random_init :: "16 word \<Rightarrow> 'g \<Rightarrow> 'g"
  assumes reinit: "\<And>g g'. random_init (word_of_int s) g = random_init (word_of_int s) g'"
  shows "case contiki_prng_impl random_rand e (contiki_prng_init random_init s w) buf N of
           None \<Rightarrow> False
         | Some (ret1, w1) \<Rightarrow>
             ret1 = 1 \<and>
             map (mem w1) [buf..<buf + N] =
               take N (concat (map (obj_repr e 2)
                  (draws random_rand (Suc ((N - 1) div 2)) (random_init (word_of_int s) g0)))) \<and>
             (case contiki_prng_impl random_rand e (contiki_prng_init random_init s w1) buf N of
                None \<Rightarrow> False
              | Some (ret2, w2) \<Rightarrow>
                  ret2 = 1 \<and> map (mem w2) [buf..<buf + N] = map (mem w1) [buf..<buf + N] \<and>
                  w2 = w1)"
proof -
  define G where "G = random_init (word_of_int s) g0"
  let ?n = "Suc ((N - 1) div 2)"
  let ?bs = "take N (concat (map (obj_repr e 2) (draws random_rand ?n G)))"
  have g: "random_init (word_of_int s) g' = G" for g'
    unfolding G_def by (rule reinit)
  have len: "length ?bs = N"
    using two_words_cover [of N] by (simp add: min.absorb1)
  have "map (write_bytes (mem w) buf ?bs) [buf..<buf + N] = ?bs"
    using map_write_bytes [of "mem w" buf ?bs] by (simp only: len)
  then show ?thesis
    by (simp add: contiki_prng_impl_eq contiki_prng_init_def g write_bytes_twice)
qed

theorem seed_then_fill_is_reproducible_witness:
  "(\<forall>g g'. sample_random_init (word_of_int 42) g = sample_random_init (word_of_int 42) g') \<and>
   (case contiki_prng_impl sample_rand16 LittleEndian
           (contiki_prng_init sample_random_init 42 \<lparr>mem = sample_mem, rng = 7\<rparr>) 10 5 of
      None \<Rightarrow> False
    | Some (ret1, w1) \<Rightarrow>
        ret1 = 1 \<and> map (mem w1) [10..<10 + 5] = [85, 86, 87, 88, 89] \<and>
        (case contiki_prng_impl sample_rand16 LittleEndian
                (contiki_prng_init sample_random_init 42 w1) 10 5 of
           None \<Rightarrow> False
         | Some (ret2, w2) \<Rightarrow>
             ret2 = 1 \<and> map (mem w2) [10..<10 + 5] = [85, 86, 87, 88, 89] \<and> w2 = w1))"
proof -
  have h: "sample_random_init (word_of_int 42) g = sample_random_init (word_of_int 42) g'"
    for g g'
    by (simp add: sample_random_init_def)
  have bs: "take 5 (concat (map (obj_repr LittleEndian 2)
              (draws sample_rand16 (Suc ((5 - 1) div 2)) (sample_random_init (word_of_int 42) 0))))
            = [85, 86, 87, 88, 89]"
    by (simp add: sample_eval)
  show ?thesis
    using seed_then_fill_is_reproducible
            [where random_init = sample_random_init and s = 42 and random_rand = sample_rand16
               and e = LittleEndian and w = "\<lparr>mem = sample_mem, rng = 7\<rparr>" and buf = 10
               and N = 5 and ?g0.0 = 0, OF h]
    unfolding bs
    by (auto simp: sample_random_init_def split: option.splits)
qed

text \<open>
  C8. LwIP and Win32: \<^verbatim>\<open>prng_init\<close> returns the state it was given, for every seed, and
  a fill after it behaves as the fill without it.
\<close>

theorem seedless_prng_init_is_a_no_op:
  "lwip_prng_init Value wl = wl \<and> win32_prng_init Value ww = ww \<and>
   lwip_prng_impl LWIP_RAND e (lwip_prng_init Value wl) buf len
     = lwip_prng_impl LWIP_RAND e wl buf len \<and>
   coap_prng_impl rand_s (win32_prng_init Value ww) buf len
     = coap_prng_impl rand_s ww buf len"
  by (simp add: lwip_prng_init_def win32_prng_init_def)

text \<open>
  C9. Each routine returns for every length and every generator. One pass of the Contiki
  (LwIP) loop continues with \<open>len - 2\<close> (\<open>len - 4\<close>), which is smaller; one pass of the
  Win32 loop either returns 0, when \<^verbatim>\<open>rand_s\<close> failed, or stores \<open>min len 4 \<ge> 1\<close> bytes and
  continues with \<open>len - min len 4\<close>, which is smaller.
\<close>

theorem fill_terminates:
  "(\<exists>r. contiki_prng_impl random_rand e wc buf len = Some r) \<and>
   (\<exists>r. lwip_prng_impl LWIP_RAND e wl buf len = Some r) \<and>
   (\<exists>r. coap_prng_impl rand_s ww buf len = Some r) \<and>
   (2 < len \<longrightarrow>
      contiki_loop random_rand e wc buf len v16 =
        contiki_loop random_rand e
          (wc\<lparr>mem := memcpy (mem wc) buf (obj_repr e 2 v16) 2, rng := snd (random_rand (rng wc))\<rparr>)
          (buf + 2) (len - 2) (fst (random_rand (rng wc)))
      \<and> len - 2 < len) \<and>
   (4 < len \<longrightarrow>
      lwip_loop LWIP_RAND e wl buf len v32 =
        lwip_loop LWIP_RAND e
          (wl\<lparr>mem := memcpy (mem wl) buf (obj_repr e 4 v32) 4, rng := snd (LWIP_RAND (rng wl))\<rparr>)
          (buf + 4) (len - 4) (fst (LWIP_RAND (rng wl)))
      \<and> len - 4 < len) \<and>
   (len \<noteq> 0 \<and> fst (fst (rand_s (rng ww))) = 0 \<longrightarrow>
      coap_prng_impl rand_s ww buf len =
        coap_prng_impl rand_s
          (ww\<lparr>rng := snd (rand_s (rng ww)),
              mem := write_bytes (mem ww) buf (take len (le_bytes 4 (snd (fst (rand_s (rng ww))))))\<rparr>)
          (buf + min len 4) (len - min len 4)
      \<and> 1 \<le> min len 4 \<and> len - min len 4 < len) \<and>
   (len \<noteq> 0 \<and> fst (fst (rand_s (rng ww))) \<noteq> 0 \<longrightarrow>
      coap_prng_impl rand_s ww buf len = Some (0, ww\<lparr>rng := snd (rand_s (rng ww))\<rparr>))"
proof (intro conjI impI)
  show "\<exists>r. contiki_prng_impl random_rand e wc buf len = Some r"
    by (simp add: contiki_prng_impl_eq)
  show "\<exists>r. lwip_prng_impl LWIP_RAND e wl buf len = Some r"
    by (simp add: lwip_prng_impl_eq)
  show "\<exists>r. coap_prng_impl rand_s ww buf len = Some r"
    by (simp add: coap_prng_impl_eq)
next
  assume "2 < len"
  then show "contiki_loop random_rand e wc buf len v16 =
        contiki_loop random_rand e
          (wc\<lparr>mem := memcpy (mem wc) buf (obj_repr e 2 v16) 2, rng := snd (random_rand (rng wc))\<rparr>)
          (buf + 2) (len - 2) (fst (random_rand (rng wc)))"
    by (subst contiki_loop.simps) (simp add: case_prod_beta Let_def)
  from \<open>2 < len\<close> show "len - 2 < len" by simp
next
  assume "4 < len"
  then show "lwip_loop LWIP_RAND e wl buf len v32 =
        lwip_loop LWIP_RAND e
          (wl\<lparr>mem := memcpy (mem wl) buf (obj_repr e 4 v32) 4, rng := snd (LWIP_RAND (rng wl))\<rparr>)
          (buf + 4) (len - 4) (fst (LWIP_RAND (rng wl)))"
    by (subst lwip_loop.simps) (simp add: case_prod_beta Let_def)
  from \<open>4 < len\<close> show "len - 4 < len" by simp
next
  assume h: "len \<noteq> 0 \<and> fst (fst (rand_s (rng ww))) = 0"
  then show "coap_prng_impl rand_s ww buf len =
        coap_prng_impl rand_s
          (ww\<lparr>rng := snd (rand_s (rng ww)),
              mem := write_bytes (mem ww) buf (take len (le_bytes 4 (snd (fst (rand_s (rng ww))))))\<rparr>)
          (buf + min len 4) (len - min len 4)"
    by (subst coap_prng_impl.simps) (simp add: case_prod_beta Let_def coap_prng_for_0)
  from h show "1 \<le> min len 4" by simp
  from h show "len - min len 4 < len" by (simp add: min_def)
next
  assume "len \<noteq> 0 \<and> fst (fst (rand_s (rng ww))) \<noteq> 0"
  then show "coap_prng_impl rand_s ww buf len = Some (0, ww\<lparr>rng := snd (rand_s (rng ww))\<rparr>)"
    by (subst coap_prng_impl.simps) (simp add: case_prod_beta Let_def)
qed

theorem fill_terminates_witness:
  "(2::nat) < 5 \<and> (4::nat) < 5 \<and>
   ((5::nat) \<noteq> 0 \<and> fst (fst (sample_rand_s 7 (rng \<lparr>mem = sample_mem, rng = 0::nat\<rparr>))) = 0) \<and>
   ((5::nat) \<noteq> 0 \<and> fst (fst (sample_rand_s 0 (rng \<lparr>mem = sample_mem, rng = 0::nat\<rparr>))) \<noteq> 0) \<and>
   (\<exists>r. contiki_prng_impl sample_rand16 LittleEndian \<lparr>mem = sample_mem, rng = 0\<rparr> 10 5 = Some r) \<and>
   (\<exists>r. lwip_prng_impl sample_rand32 LittleEndian \<lparr>mem = sample_mem, rng = 0\<rparr> 10 5 = Some r) \<and>
   (\<exists>r. coap_prng_impl (sample_rand_s 7) \<lparr>mem = sample_mem, rng = 0\<rparr> 10 5 = Some r) \<and>
   contiki_loop sample_rand16 LittleEndian \<lparr>mem = sample_mem, rng = 0\<rparr> 10 5 0 =
     contiki_loop sample_rand16 LittleEndian
       \<lparr>mem = memcpy sample_mem 10 (obj_repr LittleEndian 2 (0 :: 16 word)) 2, rng = 1\<rparr>
       12 3 513 \<and>
   lwip_loop sample_rand32 LittleEndian \<lparr>mem = sample_mem, rng = 0\<rparr> 10 5 0 =
     lwip_loop sample_rand32 LittleEndian
       \<lparr>mem = memcpy sample_mem 10 (obj_repr LittleEndian 4 (0 :: 32 word)) 4, rng = 1\<rparr>
       14 1 67305985 \<and>
   coap_prng_impl (sample_rand_s 7) \<lparr>mem = sample_mem, rng = 0\<rparr> 10 5 =
     coap_prng_impl (sample_rand_s 7)
       \<lparr>mem = write_bytes sample_mem 10 (take 5 (le_bytes 4 (67305985 :: 32 word))), rng = 1\<rparr>
       14 1 \<and>
   coap_prng_impl (sample_rand_s 0) \<lparr>mem = sample_mem, rng = 0\<rparr> 10 5 =
     Some (0, \<lparr>mem = sample_mem, rng = 1\<rparr>)"
proof -
  note ok = fill_terminates
          [where random_rand = sample_rand16 and LWIP_RAND = sample_rand32
             and rand_s = "sample_rand_s 7" and e = LittleEndian and buf = 10 and len = 5
             and wc = "\<lparr>mem = sample_mem, rng = 0\<rparr>" and wl = "\<lparr>mem = sample_mem, rng = 0\<rparr>"
             and ww = "\<lparr>mem = sample_mem, rng = 0\<rparr>" and ?v16.0 = 0 and ?v32.0 = 0]
  note bad = fill_terminates
          [where random_rand = sample_rand16 and LWIP_RAND = sample_rand32
             and rand_s = "sample_rand_s 0" and e = LittleEndian and buf = 10 and len = 5
             and wc = "\<lparr>mem = sample_mem, rng = 0\<rparr>" and wl = "\<lparr>mem = sample_mem, rng = 0\<rparr>"
             and ww = "\<lparr>mem = sample_mem, rng = 0\<rparr>" and ?v16.0 = 0 and ?v32.0 = 0]
  note returns = ok [THEN conjunct1] ok [THEN conjunct2, THEN conjunct1]
    ok [THEN conjunct2, THEN conjunct2, THEN conjunct1]
  note steps = ok [THEN conjunct2, THEN conjunct2, THEN conjunct2]
  have contiki: "contiki_loop sample_rand16 LittleEndian \<lparr>mem = sample_mem, rng = 0\<rparr> 10 5 0 =
     contiki_loop sample_rand16 LittleEndian
       \<lparr>mem = memcpy sample_mem 10 (obj_repr LittleEndian 2 (0 :: 16 word)) 2, rng = 1\<rparr>
       12 3 513"
    using steps [THEN conjunct1] by (simp add: sample_rand16_def)
  have lwip: "lwip_loop sample_rand32 LittleEndian \<lparr>mem = sample_mem, rng = 0\<rparr> 10 5 0 =
     lwip_loop sample_rand32 LittleEndian
       \<lparr>mem = memcpy sample_mem 10 (obj_repr LittleEndian 4 (0 :: 32 word)) 4, rng = 1\<rparr>
       14 1 67305985"
    using steps [THEN conjunct2, THEN conjunct1] by (simp add: sample_rand32_def)
  have win32: "coap_prng_impl (sample_rand_s 7) \<lparr>mem = sample_mem, rng = 0\<rparr> 10 5 =
     coap_prng_impl (sample_rand_s 7)
       \<lparr>mem = write_bytes sample_mem 10 (take 5 (le_bytes 4 (67305985 :: 32 word))), rng = 1\<rparr>
       14 1"
    using steps [THEN conjunct2, THEN conjunct2, THEN conjunct1]
    by (simp add: sample_rand_s_def)
  have failure: "coap_prng_impl (sample_rand_s 0) \<lparr>mem = sample_mem, rng = 0\<rparr> 10 5 =
     Some (0, \<lparr>mem = sample_mem, rng = 1\<rparr>)"
    using bad [THEN conjunct2, THEN conjunct2, THEN conjunct2, THEN conjunct2, THEN conjunct2,
            THEN conjunct2]
    by (simp add: sample_rand_s_def)
  show ?thesis
    using returns contiki lwip win32 failure
    by (simp only: simp_thms) (simp add: sample_rand_s_def)
qed

text \<open>
  C10. Contiki: \<^verbatim>\<open>prng_init\<close> passes the seed modulo \<open>2^16\<close> to \<^verbatim>\<open>random_init\<close>. Two seeds
  that agree modulo 65536 give the same state and the same bytes in a following fill.
\<close>

theorem contiki_seed_is_taken_modulo_65536:
  fixes s1 s2 :: int and random_init :: "16 word \<Rightarrow> 'g \<Rightarrow> 'g"
  assumes "s1 mod 65536 = s2 mod 65536"
  shows "contiki_prng_init random_init s1 w = contiki_prng_init random_init s2 w \<and>
         contiki_prng_init random_init s1 w
           = w\<lparr>rng := random_init (word_of_int (s1 mod 65536)) (rng w)\<rparr> \<and>
         contiki_prng_impl random_rand e (contiki_prng_init random_init s1 w) buf len
           = contiki_prng_impl random_rand e (contiki_prng_init random_init s2 w) buf len"
proof -
  have trunc: "(word_of_int (s mod 65536) :: 16 word) = word_of_int s" for s
    by (simp add: word_of_int_eq_iff take_bit_eq_mod)
  from assms have "(word_of_int s1 :: 16 word) = word_of_int s2"
    by (simp add: word_of_int_eq_iff take_bit_eq_mod)
  then show ?thesis
    by (simp add: contiki_prng_init_def trunc)
qed

theorem contiki_seed_is_taken_modulo_65536_witness:
  "(65578::int) mod 65536 = 42 mod 65536 \<and>
   contiki_prng_init sample_random_init 65578 \<lparr>mem = sample_mem, rng = 7\<rparr>
     = contiki_prng_init sample_random_init 42 \<lparr>mem = sample_mem, rng = 7\<rparr> \<and>
   contiki_prng_init sample_random_init 65578 \<lparr>mem = sample_mem, rng = 7\<rparr>
     = \<lparr>mem = sample_mem, rng = 42\<rparr> \<and>
   contiki_prng_impl sample_rand16 LittleEndian
       (contiki_prng_init sample_random_init 65578 \<lparr>mem = sample_mem, rng = 7\<rparr>) 10 5
     = contiki_prng_impl sample_rand16 LittleEndian
         (contiki_prng_init sample_random_init 42 \<lparr>mem = sample_mem, rng = 7\<rparr>) 10 5"
proof -
  have h: "(65578::int) mod 65536 = 42 mod 65536" by simp
  note t = contiki_seed_is_taken_modulo_65536
             [OF h, where random_init = sample_random_init
                and w = "\<lparr>mem = sample_mem, rng = 7\<rparr>" and random_rand = sample_rand16
                and e = LittleEndian and buf = 10 and len = 5]
  have state: "contiki_prng_init sample_random_init 65578 \<lparr>mem = sample_mem, rng = 7\<rparr>
                 = \<lparr>mem = sample_mem, rng = 42\<rparr>"
    using t [THEN conjunct2, THEN conjunct1] by (simp add: sample_random_init_def)
  show ?thesis
    using h t [THEN conjunct1] state t [THEN conjunct2, THEN conjunct2]
    by (simp only: simp_thms)
qed

end
